theory Spec2Isabelle
  imports Complex_Main
begin

section \<open>The task record and the store\<close>

text \<open>
  A task is the dictionary built in \<open>TaskManager.add_task\<close>, with the four keys
  \<open>id\<close>, \<open>description\<close>, \<open>completed\<close> and \<open>created_at\<close>. The key \<open>id\<close> is
  the field \<open>task_id\<close> here (\<open>id\<close> is the identity function of HOL). Python integers
  are unbounded, hence \<open>int\<close>.

  A description is a Python string, a sequence of characters. No method but
  \<open>search_tasks\<close> looks at the characters of a description, so their type is a
  parameter \<open>'c\<close> of the record: the examples write descriptions as HOL strings, and
  \<open>search_tasks\<close> takes the characters to be Unicode code points. The timestamp is the
  text that \<open>strftime\<close> makes of digits, dashes and colons.
\<close>

record 'c task =
  task_id :: int
  description :: "'c list"
  completed :: bool
  created_at :: string

text \<open>
  The state of a \<open>TaskManager\<close>: the list \<open>self.tasks\<close>, and the log of what
  \<open>save_tasks\<close> was asked to write to the tasks file, newest first. \<open>save_tasks\<close>
  dumps the whole of \<open>self.tasks\<close> and never raises (an \<open>IOError\<close> is printed), so a
  call of it is one more entry of the log, whether the write reached the disk or not.
\<close>

record 'c store =
  tasks :: "'c task list"
  writes :: "'c task list list"

definition save_tasks :: "'c store \<Rightarrow> 'c store" where
  "save_tasks st = st\<lparr>writes := tasks st # writes st\<rparr>"

text \<open>
  The store of a manager started with no tasks file: \<open>load_tasks\<close> returns \<open>[]\<close>.
\<close>

definition fresh :: "'c store" where
  "fresh = \<lparr>tasks = [], writes = []\<rparr>"

text \<open>
  Every method reports what it did by printing. A message is one value of this type,
  one constructor for each report the methods can print.
\<close>

datatype 'c message =
    TaskAdded "'c list"
  | AlreadyCompleted int
  | MarkedCompleted int
  | NotFound int
  | Deleted int "'c list"
  | RemovedCompleted nat
  | NoCompletedToRemove
  | Updated int "'c list" "'c list"
  | NoTasksForStatistics
  | Statistics int int int int
  | NoMatches "'c list"
  | SearchResults "'c list" "'c task list"

section \<open>The operations\<close>

subsection \<open>add_task\<close>

text \<open>
  \<open>now\<close> is the text of \<open>datetime.now().strftime(...)\<close> at the call.
\<close>

definition new_task :: "'c store \<Rightarrow> 'c list \<Rightarrow> string \<Rightarrow> 'c task" where
  "new_task st descr now =
     \<lparr>task_id = int (length (tasks st)) + 1, description = descr,
      completed = False, created_at = now\<rparr>"

definition add_task :: "'c store \<Rightarrow> 'c list \<Rightarrow> string \<Rightarrow> 'c message \<times> 'c store" where
  "add_task st descr now =
     (TaskAdded descr, save_tasks (st\<lparr>tasks := tasks st @ [new_task st descr now]\<rparr>))"

subsection \<open>complete_task\<close>

text \<open>
  The loop \<open>for task in self.tasks\<close> stops at the first task whose id is the one asked
  for. \<open>complete_scan\<close> returns the list after the loop and what the loop found:
  \<open>None\<close> when it ran to the end, otherwise whether the task was completed before.
\<close>

fun complete_scan :: "int \<Rightarrow> 'c task list \<Rightarrow> bool option \<times> 'c task list" where
  "complete_scan i [] = (None, [])"
| "complete_scan i (t # ts) =
     (if task_id t = i then
        (if completed t then (Some True, t # ts)
         else (Some False, t\<lparr>completed := True\<rparr> # ts))
      else (case complete_scan i ts of (r, ts') \<Rightarrow> (r, t # ts')))"

definition complete_task :: "'c store \<Rightarrow> int \<Rightarrow> 'c message \<times> 'c store" where
  "complete_task st i =
     (case complete_scan i (tasks st) of
        (None, ts') \<Rightarrow> (NotFound i, st)
      | (Some True, ts') \<Rightarrow> (AlreadyCompleted i, st)
      | (Some False, ts') \<Rightarrow> (MarkedCompleted i, save_tasks (st\<lparr>tasks := ts'\<rparr>)))"

subsection \<open>delete_task\<close>

text \<open>
  \<open>delete_scan\<close> is the loop over \<open>enumerate(self.tasks)\<close>: at the first task with
  the id it pops that index and returns; the result is the description popped and the
  list left.
\<close>

fun delete_scan :: "int \<Rightarrow> 'c task list \<Rightarrow> ('c list \<times> 'c task list) option" where
  "delete_scan i [] = None"
| "delete_scan i (t # ts) =
     (if task_id t = i then Some (description t, ts)
      else (case delete_scan i ts of
              None \<Rightarrow> None
            | Some (d, ts') \<Rightarrow> Some (d, t # ts')))"

definition delete_task :: "'c store \<Rightarrow> int \<Rightarrow> 'c message \<times> 'c store" where
  "delete_task st i =
     (case delete_scan i (tasks st) of
        None \<Rightarrow> (NotFound i, st)
      | Some (d, ts') \<Rightarrow> (Deleted i d, save_tasks (st\<lparr>tasks := ts'\<rparr>)))"

subsection \<open>clear_completed\<close>

definition clear_completed :: "'c store \<Rightarrow> 'c message \<times> 'c store" where
  "clear_completed st =
     (let initial_count = int (length (tasks st));
          st' = st\<lparr>tasks := filter (\<lambda>t. \<not> completed t) (tasks st)\<rparr>;
          removed = initial_count - int (length (tasks st'))
      in if removed > 0 then (RemovedCompleted (nat removed), save_tasks st')
         else (NoCompletedToRemove, st'))"

subsection \<open>edit_task\<close>

fun edit_scan :: "int \<Rightarrow> 'c list \<Rightarrow> 'c task list \<Rightarrow> ('c list \<times> 'c task list) option" where
  "edit_scan i new_description [] = None"
| "edit_scan i new_description (t # ts) =
     (if task_id t = i then
        Some (description t, t\<lparr>description := new_description\<rparr> # ts)
      else (case edit_scan i new_description ts of
              None \<Rightarrow> None
            | Some (old, ts') \<Rightarrow> Some (old, t # ts')))"

definition edit_task :: "'c store \<Rightarrow> int \<Rightarrow> 'c list \<Rightarrow> 'c message \<times> 'c store" where
  "edit_task st i new_description =
     (case edit_scan i new_description (tasks st) of
        None \<Rightarrow> (NotFound i, st)
      | Some (old_description, ts') \<Rightarrow>
          (Updated i old_description new_description, save_tasks (st\<lparr>tasks := ts'\<rparr>)))"

subsection \<open>search_tasks\<close>

text \<open>
  The keyword and the descriptions are Python strings, that is, sequences of Unicode code
  points, and \<open>search_tasks\<close> compares them after \<open>str.lower\<close>. Here a character is its
  code point.
\<close>

type_synonym codepoint = nat



text \<open>
  The lowercase mapping of a modelled code point is one code point: the capital letters
  \<open>A\<close> to \<open>Z\<close>, the capital letters of Latin-1 (\<open>0xC0\<close> to \<open>0xDE\<close>, where
  \<open>0xD7\<close> is the multiplication sign) and the Greek capital letters lie 32 below their
  small letters; every other modelled code point is its own lowercase.
\<close>

definition lower_char :: "codepoint \<Rightarrow> codepoint" where
  "lower_char c =
     (if (0x41 \<le> c \<and> c \<le> 0x5A) \<or> (0xC0 \<le> c \<and> c \<le> 0xDE \<and> c \<noteq> 0xD7) \<or>
         (0x391 \<le> c \<and> c \<le> 0x3A1) \<or> (0x3A3 \<le> c \<and> c \<le> 0x3A9)
      then c + 32 else c)"

text \<open>
  The modelled code points with the property \<open>Cased\<close>: the letters of Basic Latin, the
  ordinal indicators \<open>0xAA\<close> and \<open>0xBA\<close>, the micro sign \<open>0xB5\<close>, the letters of
  Latin-1 (\<open>0xD7\<close> and \<open>0xF7\<close> are the multiplication and division signs) and the
  Greek letters. Those with the property \<open>Case_Ignorable\<close>: apostrophe, full stop, colon,
  circumflex, grave accent, diaeresis, soft hyphen, macron, acute accent, middle dot and
  cedilla.
\<close>

definition cased :: "codepoint \<Rightarrow> bool" where
  "cased c \<longleftrightarrow>
     (0x41 \<le> c \<and> c \<le> 0x5A) \<or> (0x61 \<le> c \<and> c \<le> 0x7A) \<or>
     c = 0xAA \<or> c = 0xB5 \<or> c = 0xBA \<or>
     (0xC0 \<le> c \<and> c \<le> 0xFF \<and> c \<noteq> 0xD7 \<and> c \<noteq> 0xF7) \<or>
     (0x391 \<le> c \<and> c \<le> 0x3A1) \<or> (0x3A3 \<le> c \<and> c \<le> 0x3A9) \<or>
     (0x3B1 \<le> c \<and> c \<le> 0x3C9)"

definition case_ignorable :: "codepoint \<Rightarrow> bool" where
  "case_ignorable c \<longleftrightarrow>
     c = 0x27 \<or> c = 0x2E \<or> c = 0x3A \<or> c = 0x5E \<or> c = 0x60 \<or> c = 0xA8 \<or>
     c = 0xAD \<or> c = 0xAF \<or> c = 0xB4 \<or> c = 0xB7 \<or> c = 0xB8"

text \<open>
  \<open>str.lower\<close> maps every character by its lowercase mapping, but for the capital sigma
  \<open>0x3A3\<close>: it becomes the final small sigma \<open>0x3C2\<close> when it ends a word, and the small
  sigma \<open>0x3C3\<close> otherwise. It ends a word when the nearest character before it that is
  not case-ignorable exists and is cased, and the nearest character after it that is not
  case-ignorable does not exist or is not cased. In \<open>final_sigma seen rest\<close> the list
  \<open>seen\<close> holds the characters before the sigma, the nearest first, and \<open>rest\<close> the
  characters after it; both are characters of the string as it was given.
\<close>

definition final_sigma :: "codepoint list \<Rightarrow> codepoint list \<Rightarrow> bool" where
  "final_sigma seen rest =
     (case dropWhile case_ignorable seen of
        [] \<Rightarrow> False
      | b # bs \<Rightarrow>
          cased b \<and>
          (case dropWhile case_ignorable rest of
             [] \<Rightarrow> True
           | a # ys \<Rightarrow> \<not> cased a))"

fun lower_from :: "codepoint list \<Rightarrow> codepoint list \<Rightarrow> codepoint list" where
  "lower_from seen [] = []"
| "lower_from seen (c # cs) =
     (if c = 0x3A3 then (if final_sigma seen cs then 0x3C2 else 0x3C3) else lower_char c)
     # lower_from (c # seen) cs"

definition lower :: "codepoint list \<Rightarrow> codepoint list" where
  "lower s = lower_from [] s"

text \<open>
  \<open>sub in s\<close> on strings: \<open>sub\<close> starts at some position of \<open>s\<close>.
\<close>

fun startswith :: "'a list \<Rightarrow> 'a list \<Rightarrow> bool" where
  "startswith s [] = True"
| "startswith [] (p # ps) = False"
| "startswith (c # cs) (p # ps) = (c = p \<and> startswith cs ps)"

fun contains :: "'a list \<Rightarrow> 'a list \<Rightarrow> bool" where
  "contains [] sub = (sub = [])"
| "contains (c # cs) sub = (startswith (c # cs) sub \<or> contains cs sub)"


text \<open>
  The code points of a HOL string, for the examples: the characters of HOL are the code
  points below \<open>0x100\<close>.
\<close>

definition codes :: "string \<Rightarrow> codepoint list" where
  "codes s = map of_char s"

text \<open>
  The specification's words for a match: the keyword is a case-insensitive substring of
  the description, that is, some stretch of the description has the length of the keyword
  and agrees with it position by position, where two characters agree when they are the
  same character or the capital and the small form of one letter. The letters are those of
  the alphabet of ASCII text, where every code point is below 128.
\<close>

definition case_pairs :: "(codepoint \<times> codepoint) list" where
  "case_pairs = zip (codes ''ABCDEFGHIJKLMNOPQRSTUVWXYZ'') (codes ''abcdefghijklmnopqrstuvwxyz'')"

definition same_letter :: "codepoint \<Rightarrow> codepoint \<Rightarrow> bool" where
  "same_letter a b \<longleftrightarrow> a = b \<or> (a, b) \<in> set case_pairs \<or> (b, a) \<in> set case_pairs"

definition ci_substring :: "codepoint list \<Rightarrow> codepoint list \<Rightarrow> bool" where
  "ci_substring keyword descr \<longleftrightarrow>
     (\<exists>before part after. descr = before @ part @ after \<and>
        length part = length keyword \<and>
        (\<forall>k < length keyword. same_letter (part ! k) (keyword ! k)))"


subsection \<open>show_statistics\<close>

text \<open>
  The completion rate is computed in floating point: \<^verbatim>\<open>completed / total * 100\<close> is a
  true division of two integers, which Python rounds correctly to the nearest binary64 value,
  followed by a binary64 multiplication.  Values are modelled as rationals, and \<open>fl\<close> rounds
  a rational to 53 significant bits, ties to even.  The quotients that occur here lie far
  inside the normal range, so neither overflow nor subnormal numbers are modelled.
\<close>

definition round_half_even :: "rat \<Rightarrow> int" where
  "round_half_even x =
     (let f = \<lfloor>x\<rfloor>; d = x - of_int f
      in if d < 1 / 2 then f else if 1 / 2 < d then f + 1
         else if even f then f else f + 1)"

text \<open>The number of binary digits of a natural number, as \<^verbatim>\<open>int.bit_length\<close> gives it.\<close>

fun bit_length :: "nat \<Rightarrow> nat" where
  "bit_length n = (if n = 0 then 0 else Suc (bit_length (n div 2)))"

text \<open>
  The binary exponent \<open>e\<close> of a positive rational \<open>x\<close>, that is
  \<open>2 powi e \<le> x < 2 powi (e + 1)\<close>, read off the bit lengths of numerator and
  denominator and adjusted by one comparison.
\<close>

definition exponent :: "rat \<Rightarrow> int" where
  "exponent x =
     (case quotient_of x of (a, b) \<Rightarrow>
        let d = int (bit_length (nat a)) - int (bit_length (nat b))
        in if 2 powi d \<le> x then d else d - 1)"

definition fl :: "rat \<Rightarrow> rat" where
  "fl x =
     (if x = 0 then 0
      else let u = 2 powi (exponent \<bar>x\<bar> - 52)
           in sgn x * of_int (round_half_even (\<bar>x\<bar> / u)) * u)"

text \<open>
  The format \<^verbatim>\<open>{completion_rate:.1f}\<close> prints the decimal with one fractional digit that
  is nearest to the exact value of the float, ties to even.  The printed number is represented
  by its count of tenths: \<open>format_1f x = 625\<close> stands for the text \<^verbatim>\<open>62.5\<close>.
\<close>

definition format_1f :: "rat \<Rightarrow> int" where
  "format_1f x = round_half_even (x * 10)"

text \<open>
  The expression \<^verbatim>\<open>(completed / total * 100) if total > 0 else 0\<close>.
\<close>

definition completion_rate :: "int \<Rightarrow> int \<Rightarrow> rat" where
  "completion_rate c t =
     (if t > 0 then fl (fl (of_int c / of_int t) * 100) else 0)"

text \<open>
  \<^verbatim>\<open>show_statistics\<close> returns at once with its own report when there is no task; otherwise
  it reports the total, the number of completed tasks, the number of pending tasks and the
  formatted rate.  It never calls \<^verbatim>\<open>save_tasks\<close>.
\<close>

definition show_statistics :: "'c store \<Rightarrow> 'c message \<times> 'c store" where
  "show_statistics st =
     (if tasks st = [] then (NoTasksForStatistics, st)
      else let total_count = int (length (tasks st));
               completed_count = int (length (filter completed (tasks st)));
               pending = total_count - completed_count;
               rate = completion_rate completed_count total_count
           in (Statistics total_count completed_count pending (format_1f rate), st))"

section \<open>Sequences of operations\<close>

text \<open>
  The mutating methods as data, and the store reached by calling them in turn. The
  methods that only print (\<open>list_tasks\<close>, \<open>show_statistics\<close>, \<open>search_tasks\<close>)
  leave the store as it is and are no operations of a run.
\<close>

datatype 'c operation =
    Add "'c list" string
  | Complete int
  | Delete int
  | Edit int "'c list"
  | ClearCompleted

fun apply_operation :: "'c store \<Rightarrow> 'c operation \<Rightarrow> 'c store" where
  "apply_operation st (Add descr now) = snd (add_task st descr now)"
| "apply_operation st (Complete i) = snd (complete_task st i)"
| "apply_operation st (Delete i) = snd (delete_task st i)"
| "apply_operation st (Edit i new_description) = snd (edit_task st i new_description)"
| "apply_operation st ClearCompleted = snd (clear_completed st)"

definition run :: "'c store \<Rightarrow> 'c operation list \<Rightarrow> 'c store" where
  "run st ops = foldl apply_operation st ops"

text \<open>
  The operations that take tasks out of the list, and the calls of \<open>add_task\<close>.
\<close>

fun is_delete :: "'c operation \<Rightarrow> bool" where
  "is_delete (Delete i) = True"
| "is_delete op = False"

fun removes :: "'c operation \<Rightarrow> bool" where
  "removes (Delete i) = True"
| "removes ClearCompleted = True"
| "removes op = False"

fun is_add :: "'c operation \<Rightarrow> bool" where
  "is_add (Add descr now) = True"
| "is_add op = False"

section \<open>Stores used as examples\<close>

text \<open>
  Two tasks with the same id, as a manager finds them at start-up in a tasks file written
  after adding two tasks, deleting task 1 and adding a third (nothing written yet in this
  session).
\<close>

definition duplicate_store :: "char store" where
  "duplicate_store =
     \<lparr>tasks =
        [\<lparr>task_id = 2, description = ''Pay rent'', completed = False,
          created_at = ''2024-01-01 10:00:01''\<rparr>,
         \<lparr>task_id = 2, description = ''Buy milk'', completed = False,
          created_at = ''2024-01-01 10:00:02''\<rparr>],
      writes = []\<rparr>"

text \<open>
  The scenario of the specification: two tasks are added to the empty store and the first
  is completed.
\<close>

definition scenario_store :: "char store" where
  "scenario_store =
     run fresh [Add ''Buy milk'' ''2024-01-01 10:00:00'',
                Add ''Pay rent'' ''2024-01-01 10:00:01'', Complete 1]"



section \<open>Adding tasks\<close>

lemma tasks_add_task: "tasks (snd (add_task st d n)) = tasks st @ [new_task st d n]"
  by (simp add: add_task_def save_tasks_def)

section \<open>The first task with a given id\<close>

lemma first_match_split:
  assumes "i \<in> task_id ` set ts"
  shows "\<exists>pre t post. ts = pre @ t # post \<and> i \<notin> task_id ` set pre \<and> task_id t = i"
proof -
  from assms obtain x where x: "x \<in> set ts" "task_id x = i"
    by (elim imageE) simp
  then have "\<exists>t \<in> set ts. task_id t = i" 
    by (intro bexI [of _ x]) 
  from split_list_first_prop [OF this]
  obtain pre t post where sp: "ts = pre @ t # post" "task_id t = i"
      "\<forall>u \<in> set pre. task_id u \<noteq> i"
    by (elim exE conjE)
  from sp(3) have "i \<notin> task_id ` set pre"
    by (simp add: image_iff) metis
  with sp(1,2) show ?thesis
    by (intro exI conjI)
qed

lemma complete_scan_absent: "i \<notin> task_id ` set ts \<Longrightarrow> complete_scan i ts = (None, ts)"
  by (induction ts) auto

lemma complete_scan_first:
  "i \<notin> task_id ` set pre \<Longrightarrow> task_id t = i \<Longrightarrow>
     complete_scan i (pre @ t # post) =
       (if completed t then (Some True, pre @ t # post)
        else (Some False, pre @ t\<lparr>completed := True\<rparr> # post))"
  by (induction pre) auto

lemma delete_scan_absent: "i \<notin> task_id ` set ts \<Longrightarrow> delete_scan i ts = None"
  by (induction ts) auto

lemma delete_scan_first:
  "i \<notin> task_id ` set pre \<Longrightarrow> task_id t = i \<Longrightarrow>
     delete_scan i (pre @ t # post) = Some (description t, pre @ post)"
  by (induction pre) auto

lemma edit_scan_absent: "i \<notin> task_id ` set ts \<Longrightarrow> edit_scan i d ts = None"
  by (induction ts) auto

lemma edit_scan_first:
  "i \<notin> task_id ` set pre \<Longrightarrow> task_id t = i \<Longrightarrow>
     edit_scan i d (pre @ t # post) = Some (description t, pre @ t\<lparr>description := d\<rparr> # post)"
  by (induction pre) auto

lemma complete_task_absent:
  "i \<notin> task_id ` set (tasks st) \<Longrightarrow> complete_task st i = (NotFound i, st)"
  by (simp add: complete_task_def complete_scan_absent)

lemma complete_task_first:
  "tasks st = pre @ t # post \<Longrightarrow> i \<notin> task_id ` set pre \<Longrightarrow> task_id t = i \<Longrightarrow>
     complete_task st i =
       (if completed t then (AlreadyCompleted i, st)
        else (MarkedCompleted i,
              st\<lparr>tasks := pre @ t\<lparr>completed := True\<rparr> # post,
                 writes := (pre @ t\<lparr>completed := True\<rparr> # post) # writes st\<rparr>))"
  by (simp add: complete_task_def complete_scan_first save_tasks_def)

lemma delete_task_absent:
  "i \<notin> task_id ` set (tasks st) \<Longrightarrow> delete_task st i = (NotFound i, st)"
  by (simp add: delete_task_def delete_scan_absent)

lemma delete_task_first:
  "tasks st = pre @ t # post \<Longrightarrow> i \<notin> task_id ` set pre \<Longrightarrow> task_id t = i \<Longrightarrow>
     delete_task st i =
       (Deleted i (description t),
        st\<lparr>tasks := pre @ post, writes := (pre @ post) # writes st\<rparr>)"
  by (simp add: delete_task_def delete_scan_first save_tasks_def)

lemma edit_task_absent:
  "i \<notin> task_id ` set (tasks st) \<Longrightarrow> edit_task st i d = (NotFound i, st)"
  by (simp add: edit_task_def edit_scan_absent)

lemma edit_task_first:
  "tasks st = pre @ t # post \<Longrightarrow> i \<notin> task_id ` set pre \<Longrightarrow> task_id t = i \<Longrightarrow>
     edit_task st i d =
       (Updated i (description t) d,
        st\<lparr>tasks := pre @ t\<lparr>description := d\<rparr> # post,
           writes := (pre @ t\<lparr>description := d\<rparr> # post) # writes st\<rparr>)"
  by (simp add: edit_task_def edit_scan_first save_tasks_def)

section \<open>Runs of operations that remove no task\<close>

lemma complete_scan_ids: "map task_id (snd (complete_scan i ts)) = map task_id ts"
  by (induction ts) (simp_all add: split_beta)

lemma edit_scan_ids: "edit_scan i d ts = Some (old, ts') \<Longrightarrow> map task_id ts' = map task_id ts"
  by (induction ts arbitrary: ts') (auto split: if_splits option.splits)

lemma complete_task_ids: "map task_id (tasks (snd (complete_task st i))) = map task_id (tasks st)"
proof (cases "complete_scan i (tasks st)")
  case (Pair r ts')
  have "map task_id ts' = map task_id (tasks st)"
    using complete_scan_ids [of i "tasks st"] Pair by simp
  then show ?thesis
    by (simp add: complete_task_def Pair save_tasks_def split: option.splits bool.splits)
qed

lemma edit_task_ids: "map task_id (tasks (snd (edit_task st i d))) = map task_id (tasks st)"
proof (cases "edit_scan i d (tasks st)")
  case None
  then show ?thesis by (simp add: edit_task_def)
next
  case (Some p)
  obtain old ts' where p: "p = (old, ts')" by (cases p)
  have "map task_id ts' = map task_id (tasks st)"
    using edit_scan_ids [of i d "tasks st" old ts'] Some p by simp
  then show ?thesis by (simp add: edit_task_def Some p save_tasks_def)
qed

lemma apply_operation_ids:
  assumes "\<not> removes op"
    and "map task_id (tasks st) = [1..int (length (tasks st))]"
  shows "map task_id (tasks (apply_operation st op)) =
           [1..int (length (tasks st)) + (if is_add op then 1 else 0)]"
proof (cases op)
  case (Add descr now)
  have "[1..int (length (tasks st)) + 1] = [1..int (length (tasks st))] @ [int (length (tasks st)) + 1]"
    by (simp add: upto_rec2)
  then show ?thesis
    using assms(2) by (simp add: Add tasks_add_task new_task_def)
next
  case (Complete i)
  then show ?thesis using assms(2) by (simp add: complete_task_ids)
next
  case (Delete i)
  then show ?thesis using assms(1) by simp
next
  case (Edit i d)
  then show ?thesis using assms(2) by (simp add: edit_task_ids)
next
  case ClearCompleted
  then show ?thesis using assms(1) by simp
qed

lemma run_ids:
  assumes "\<forall>op \<in> set ops. \<not> removes op"
    and "map task_id (tasks st) = [1..int (length (tasks st))]"
  shows "map task_id (tasks (run st ops)) =
           [1..int (length (tasks st)) + int (length (filter is_add ops))]"
  using assms
proof (induction ops arbitrary: st)
  case Nil
  then show ?case by (simp add: run_def)
next
  case (Cons op ops)
  let ?st = "apply_operation st op"
  have k: "\<not> removes op" using Cons.prems(1) by simp
  have ids: "map task_id (tasks ?st) = [1..int (length (tasks st)) + (if is_add op then 1 else 0)]"
    using apply_operation_ids [OF k Cons.prems(2)] .
  have len: "int (length (tasks ?st)) = int (length (tasks st)) + (if is_add op then 1 else 0)"
    using arg_cong [OF ids, of length] by simp
  have ids': "map task_id (tasks ?st) = [1..int (length (tasks ?st))]"
    using ids len by simp
  have "map task_id (tasks (run ?st ops)) =
          [1..int (length (tasks ?st)) + int (length (filter is_add ops))]"
    using Cons.IH [of ?st] Cons.prems(1) ids' by simp
  moreover have "run st (op # ops) = run ?st ops" by (simp add: run_def)
  ultimately show ?case using len by (simp add: add.assoc)
qed

text \<open>
  C2. \<open>add_task\<close> appends one task to the end of the list, with id the number of
  tasks before the call plus one, not completed, stamped with the clock's text; the tasks
  already there are unchanged and the whole list is handed to \<open>save_tasks\<close>. When the
  ids of the store are \<open>1, 2, ..., n\<close> in this order, as in the empty store, a run of
  operations among which there is neither a \<open>delete_task\<close> nor a \<open>clear_completed\<close>
  leaves the ids \<open>1, 2, ..., n + a\<close>, where \<open>a\<close> is the number of \<open>add_task\<close> calls of
  the run: strictly increasing from 1, no gap.
\<close>

theorem add_task_appends_next_id:
  "add_task st descr now =
     (TaskAdded descr,
      st\<lparr>tasks := tasks st @
             [\<lparr>task_id = int (length (tasks st)) + 1, description = descr,
               completed = False, created_at = now\<rparr>],
         writes := (tasks st @
             [\<lparr>task_id = int (length (tasks st)) + 1, description = descr,
               completed = False, created_at = now\<rparr>]) # writes st\<rparr>)
   \<and> ((\<forall>op \<in> set ops. \<not> removes op) \<and>
        map task_id (tasks st) = [1..int (length (tasks st))] \<longrightarrow>
        map task_id (tasks (run st ops)) =
          [1..int (length (tasks st)) + int (length (filter is_add ops))] \<and>
        sorted_wrt (<) (map task_id (tasks (run st ops))))
   \<and> ((\<forall>op \<in> set ops. \<not> removes op) \<longrightarrow>
        map task_id (tasks (run fresh ops)) = [1..int (length (filter is_add ops))] \<and>
        sorted_wrt (<) (map task_id (tasks (run fresh ops))))"
proof -
  have a: "add_task st descr now =
     (TaskAdded descr,
      st\<lparr>tasks := tasks st @
             [\<lparr>task_id = int (length (tasks st)) + 1, description = descr,
               completed = False, created_at = now\<rparr>],
         writes := (tasks st @
             [\<lparr>task_id = int (length (tasks st)) + 1, description = descr,
               completed = False, created_at = now\<rparr>]) # writes st\<rparr>)"
    by (simp add: add_task_def save_tasks_def new_task_def)
  have b: "(\<forall>op \<in> set ops. \<not> removes op) \<and>
        map task_id (tasks st) = [1..int (length (tasks st))] \<longrightarrow>
        map task_id (tasks (run st ops)) =
          [1..int (length (tasks st)) + int (length (filter is_add ops))] \<and>
        sorted_wrt (<) (map task_id (tasks (run st ops)))"
  proof
    assume h: "(\<forall>op \<in> set ops. \<not> removes op) \<and>
        map task_id (tasks st) = [1..int (length (tasks st))]"
    have e: "map task_id (tasks (run st ops)) =
          [1..int (length (tasks st)) + int (length (filter is_add ops))]"
      using run_ids [of ops st] h by simp
    have s: "sorted_wrt (<) (map task_id (tasks (run st ops)))"
      unfolding e by (rule sorted_wrt_upto)
    from e s show "map task_id (tasks (run st ops)) =
          [1..int (length (tasks st)) + int (length (filter is_add ops))] \<and>
        sorted_wrt (<) (map task_id (tasks (run st ops)))" by (rule conjI)
  qed
  have c: "(\<forall>op \<in> set ops. \<not> removes op) \<longrightarrow>
        map task_id (tasks (run fresh ops)) = [1..int (length (filter is_add ops))] \<and>
        sorted_wrt (<) (map task_id (tasks (run fresh ops)))"
  proof
    assume h: "\<forall>op \<in> set ops. \<not> removes op"
    have f: "map task_id (tasks (fresh :: 'a store)) = [1..int (length (tasks (fresh :: 'a store)))]"
      by (simp add: fresh_def)
    have e: "map task_id (tasks (run fresh ops)) = [1..int (length (filter is_add ops))]"
      using run_ids [OF h f] by (simp add: fresh_def)
    have s: "sorted_wrt (<) (map task_id (tasks (run fresh ops)))"
      unfolding e by (rule sorted_wrt_upto)
    from e s show "map task_id (tasks (run fresh ops)) = [1..int (length (filter is_add ops))] \<and>
        sorted_wrt (<) (map task_id (tasks (run fresh ops)))" by (rule conjI)
  qed
  show ?thesis by (rule conjI [OF a conjI [OF b c]])
qed

text \<open>
  A run without any \<open>delete_task\<close> that ends with two tasks of id 2: two tasks are added,
  the first is completed and \<open>clear_completed\<close> takes it out, and the next task added
  gets the id \<open>1 + 1 = 2\<close> of the task that is left.
\<close>

theorem ids_collide_after_clear_completed:
  "\<not> list_ex is_delete
      [Add ''Buy milk'' ''2024-01-01 10:00:00'', Add ''Pay rent'' ''2024-01-01 10:00:01'',
       Complete 1, ClearCompleted, Add ''Walk dog'' ''2024-01-01 10:00:02'']
   \<and> map task_id (tasks (run fresh
      [Add ''Buy milk'' ''2024-01-01 10:00:00'', Add ''Pay rent'' ''2024-01-01 10:00:01'',
       Complete 1, ClearCompleted, Add ''Walk dog'' ''2024-01-01 10:00:02''])) = [2, 2]
   \<and> \<not> sorted_wrt (<) (map task_id (tasks (run fresh
      [Add ''Buy milk'' ''2024-01-01 10:00:00'', Add ''Pay rent'' ''2024-01-01 10:00:01'',
       Complete 1, ClearCompleted, Add ''Walk dog'' ''2024-01-01 10:00:02''])))"
  by (simp add: run_def fresh_def add_task_def save_tasks_def new_task_def complete_task_def
      clear_completed_def Let_def)

text \<open>
  Two tasks are added, the first is completed, the second is edited and a third is added:
  the ids are 1, 2, 3.
\<close>

theorem add_task_appends_next_id_witness:
  "\<not> list_ex removes
      [Add ''Buy milk'' ''2024-01-01 10:00:00'', Add ''Pay rent'' ''2024-01-01 10:00:01'',
       Complete 1, Edit 2 ''Pay the rent'', Add ''Walk dog'' ''2024-01-01 10:00:02'']
   \<and> map task_id (tasks (fresh :: char store)) = [1..int (length (tasks (fresh :: char store)))]
   \<and> map task_id (tasks (run fresh
      [Add ''Buy milk'' ''2024-01-01 10:00:00'', Add ''Pay rent'' ''2024-01-01 10:00:01'',
       Complete 1, Edit 2 ''Pay the rent'', Add ''Walk dog'' ''2024-01-01 10:00:02''])) = [1, 2, 3]"
proof -
  have three: "[1..3] = [1, 2, 3::int]" by (simp add: upto_rec1)
  have f: "map task_id (tasks (fresh :: char store)) = [1..int (length (tasks (fresh :: char store)))]"
    by (simp add: fresh_def)
  have l: "tasks (fresh :: char store) = []" by (simp add: fresh_def)
  from add_task_appends_next_id [of "fresh :: char store" "''x''" "''y''"
    "[Add ''Buy milk'' ''2024-01-01 10:00:00'', Add ''Pay rent'' ''2024-01-01 10:00:01'',
       Complete 1, Edit 2 ''Pay the rent'', Add ''Walk dog'' ''2024-01-01 10:00:02'']"] f
  show ?thesis by (simp add: three l)
qed

section \<open>Ids after a deletion\<close>

text \<open>
  C1. The ids of the tasks in the store are not always pairwise different. Two tasks are
  added to the empty store (ids 1 and 2), task 1 is deleted, and a third task is added:
  one task is left, so the new task takes the id \<open>1 + 1 = 2\<close>, the id of the task that
  is still there.
\<close>

theorem id_collision_after_delete:
  "map task_id (tasks (run fresh
      [Add ''a'' ''2024-01-01 10:00:00'', Add ''b'' ''2024-01-01 10:00:01'', Delete 1,
       Add ''c'' ''2024-01-01 10:00:02''])) = [2, 2]
   \<and> \<not> distinct (map task_id (tasks (run fresh
      [Add ''a'' ''2024-01-01 10:00:00'', Add ''b'' ''2024-01-01 10:00:01'', Delete 1,
       Add ''c'' ''2024-01-01 10:00:02''])))"
  by (simp add: run_def fresh_def add_task_def save_tasks_def new_task_def delete_task_def)

section \<open>Completing a task\<close>

text \<open>
  C3. \<open>complete_task\<close> ends in one of three ways. When no task has the id it reports
  not-found and the store is unchanged. When the first task with the id is already
  completed it reports so and the store is unchanged, the log of writes included. Otherwise
  it sets \<open>completed\<close> of that task and saves. When some task has the id, a second call
  right after the first reports already-completed and leaves the store of the first call:
  the final state is that of a single call.
\<close>

theorem complete_task_outcomes_idempotent:
  "((i \<notin> task_id ` set (tasks st) \<and> complete_task st i = (NotFound i, st)) \<or>
    (\<exists>pre t post. tasks st = pre @ t # post \<and> i \<notin> task_id ` set pre \<and> task_id t = i \<and>
        completed t \<and> complete_task st i = (AlreadyCompleted i, st)) \<or>
    (\<exists>pre t post. tasks st = pre @ t # post \<and> i \<notin> task_id ` set pre \<and> task_id t = i \<and>
        \<not> completed t \<and>
        complete_task st i =
          (MarkedCompleted i,
           st\<lparr>tasks := pre @ t\<lparr>completed := True\<rparr> # post,
              writes := (pre @ t\<lparr>completed := True\<rparr> # post) # writes st\<rparr>)))
   \<and> (i \<in> task_id ` set (tasks st) \<longrightarrow>
        complete_task (snd (complete_task st i)) i =
          (AlreadyCompleted i, snd (complete_task st i)))"
proof (cases "i \<in> task_id ` set (tasks st)")
  case False
  then have "complete_task st i = (NotFound i, st)" by (rule complete_task_absent)
  with False have a: "i \<notin> task_id ` set (tasks st) \<and> complete_task st i = (NotFound i, st)"
    by (intro conjI)
  have b: "i \<in> task_id ` set (tasks st) \<longrightarrow>
        complete_task (snd (complete_task st i)) i =
          (AlreadyCompleted i, snd (complete_task st i))"
    using False by simp
  show ?thesis by (rule conjI [OF disjI1 [OF a] b])
next
  case True
  from first_match_split [OF True]
  obtain pre t post where sp: "tasks st = pre @ t # post" "i \<notin> task_id ` set pre"
      "task_id t = i"
    by (elim exE conjE)
  show ?thesis
  proof (cases "completed t")
    case c: True
    have one: "complete_task st i = (AlreadyCompleted i, st)"
      using complete_task_first [OF sp] c by simp
    have ex: "\<exists>pre t post. tasks st = pre @ t # post \<and> i \<notin> task_id ` set pre \<and>
        task_id t = i \<and> completed t \<and> complete_task st i = (AlreadyCompleted i, st)"
      using sp c one by (intro exI conjI)
    have two: "i \<in> task_id ` set (tasks st) \<longrightarrow>
        complete_task (snd (complete_task st i)) i =
          (AlreadyCompleted i, snd (complete_task st i))"
      by (simp add: one)
    show ?thesis by (rule conjI [OF disjI2 [OF disjI1 [OF ex]] two])
  next
    case c: False
    let ?t' = "t\<lparr>completed := True\<rparr>"
    let ?st' = "st\<lparr>tasks := pre @ ?t' # post, writes := (pre @ ?t' # post) # writes st\<rparr>"
    have one: "complete_task st i = (MarkedCompleted i, ?st')"
      using complete_task_first [OF sp] c by simp
    have tk: "tasks ?st' = pre @ ?t' # post" by simp
    have id': "task_id ?t' = i" using sp(3) by simp
    have "complete_task ?st' i = (AlreadyCompleted i, ?st')"
      using complete_task_first [OF tk sp(2) id'] by simp
    then have two: "i \<in> task_id ` set (tasks st) \<longrightarrow>
        complete_task (snd (complete_task st i)) i =
          (AlreadyCompleted i, snd (complete_task st i))"
      by (simp add: one)
    have ex: "\<exists>pre t post. tasks st = pre @ t # post \<and> i \<notin> task_id ` set pre \<and>
        task_id t = i \<and> \<not> completed t \<and>
        complete_task st i =
          (MarkedCompleted i,
           st\<lparr>tasks := pre @ t\<lparr>completed := True\<rparr> # post,
              writes := (pre @ t\<lparr>completed := True\<rparr> # post) # writes st\<rparr>)"
      using sp c one by (intro exI conjI)
    show ?thesis by (rule conjI [OF disjI2 [OF disjI2 [OF ex]] two])
  qed
qed

theorem complete_task_outcomes_idempotent_witness:
  "2 \<in> task_id ` set (tasks duplicate_store) \<and>
   complete_task (snd (complete_task duplicate_store 2)) 2 =
     (AlreadyCompleted 2, snd (complete_task duplicate_store 2))"
  using complete_task_outcomes_idempotent [of 2 duplicate_store]
  by (simp add: duplicate_store_def)

section \<open>Deleting a task\<close>

text \<open>
  C6. \<open>delete_task\<close> removes the first task with the id, keeps the tasks before and
  after it in their order, saves, and reports the description of the removed task; when
  no task has the id it reports not-found and the store is unchanged.
\<close>

theorem delete_task_removes_first_match:
  "(i \<notin> task_id ` set (tasks st) \<and> delete_task st i = (NotFound i, st)) \<or>
   (\<exists>pre t post. tasks st = pre @ t # post \<and> i \<notin> task_id ` set pre \<and> task_id t = i \<and>
      delete_task st i =
        (Deleted i (description t),
         st\<lparr>tasks := pre @ post, writes := (pre @ post) # writes st\<rparr>))"
proof (cases "i \<in> task_id ` set (tasks st)")
  case False
  then have "delete_task st i = (NotFound i, st)" by (rule delete_task_absent)
  with False have "i \<notin> task_id ` set (tasks st) \<and> delete_task st i = (NotFound i, st)"
    by (intro conjI)
  then show ?thesis by (rule disjI1)
next
  case True
  from first_match_split [OF True]
  obtain pre t post where sp: "tasks st = pre @ t # post" "i \<notin> task_id ` set pre"
      "task_id t = i"
    by (elim exE conjE)
  have "\<exists>pre t post. tasks st = pre @ t # post \<and> i \<notin> task_id ` set pre \<and> task_id t = i \<and>
      delete_task st i =
        (Deleted i (description t),
         st\<lparr>tasks := pre @ post, writes := (pre @ post) # writes st\<rparr>)"
    using sp delete_task_first [OF sp] by (intro exI conjI)
  then show ?thesis by (rule disjI2)
qed

theorem delete_task_removes_first_match_witness:
  "delete_task duplicate_store 2 =
     (Deleted 2 ''Pay rent'',
      duplicate_store\<lparr>tasks := [\<lparr>task_id = 2, description = ''Buy milk'', completed = False,
          created_at = ''2024-01-01 10:00:02''\<rparr>],
        writes := [[\<lparr>task_id = 2, description = ''Buy milk'', completed = False,
          created_at = ''2024-01-01 10:00:02''\<rparr>]]\<rparr>)
   \<and> 2 \<in> task_id ` set (tasks duplicate_store)"
  using delete_task_removes_first_match [of 2 duplicate_store]
  by (simp add: duplicate_store_def delete_task_def save_tasks_def)

section \<open>Editing a task\<close>

text \<open>
  C7. \<open>edit_task\<close> replaces the description of the first task with the id and nothing
  else: the id, the completed flag and the creation time of that task are the old ones,
  and every other task is unchanged. It saves and reports the old and the new description.
  When no task has the id it reports not-found and the store is unchanged.
\<close>

theorem edit_task_replaces_description_only:
  "(i \<notin> task_id ` set (tasks st) \<and> edit_task st i d = (NotFound i, st)) \<or>
   (\<exists>pre t post. tasks st = pre @ t # post \<and> i \<notin> task_id ` set pre \<and> task_id t = i \<and>
      edit_task st i d =
        (Updated i (description t) d,
         st\<lparr>tasks := pre @ t\<lparr>description := d\<rparr> # post,
            writes := (pre @ t\<lparr>description := d\<rparr> # post) # writes st\<rparr>) \<and>
      t\<lparr>description := d\<rparr> =
        \<lparr>task_id = task_id t, description = d, completed = completed t,
         created_at = created_at t\<rparr>)"
proof (cases "i \<in> task_id ` set (tasks st)")
  case False
  then have "edit_task st i d = (NotFound i, st)" by (rule edit_task_absent)
  with False have "i \<notin> task_id ` set (tasks st) \<and> edit_task st i d = (NotFound i, st)"
    by (intro conjI)
  then show ?thesis by (rule disjI1)
next
  case True
  from first_match_split [OF True]
  obtain pre t post where sp: "tasks st = pre @ t # post" "i \<notin> task_id ` set pre"
      "task_id t = i"
    by (elim exE conjE)
  have rec: "t\<lparr>description := d\<rparr> =
        \<lparr>task_id = task_id t, description = d, completed = completed t,
         created_at = created_at t\<rparr>"
    by simp
  have "\<exists>pre t post. tasks st = pre @ t # post \<and> i \<notin> task_id ` set pre \<and> task_id t = i \<and>
      edit_task st i d =
        (Updated i (description t) d,
         st\<lparr>tasks := pre @ t\<lparr>description := d\<rparr> # post,
            writes := (pre @ t\<lparr>description := d\<rparr> # post) # writes st\<rparr>) \<and>
      t\<lparr>description := d\<rparr> =
        \<lparr>task_id = task_id t, description = d, completed = completed t,
         created_at = created_at t\<rparr>"
    using sp edit_task_first [OF sp, of d] rec by (intro exI conjI)
  then show ?thesis by (rule disjI2)
qed

theorem edit_task_replaces_description_only_witness:
  "edit_task duplicate_store 2 ''Pay the rent'' =
     (Updated 2 ''Pay rent'' ''Pay the rent'',
      duplicate_store\<lparr>tasks :=
         [\<lparr>task_id = 2, description = ''Pay the rent'', completed = False,
           created_at = ''2024-01-01 10:00:01''\<rparr>,
          \<lparr>task_id = 2, description = ''Buy milk'', completed = False,
           created_at = ''2024-01-01 10:00:02''\<rparr>],
        writes :=
         [[\<lparr>task_id = 2, description = ''Pay the rent'', completed = False,
           created_at = ''2024-01-01 10:00:01''\<rparr>,
          \<lparr>task_id = 2, description = ''Buy milk'', completed = False,
           created_at = ''2024-01-01 10:00:02''\<rparr>]]\<rparr>)
   \<and> 2 \<in> task_id ` set (tasks duplicate_store)"
  using edit_task_replaces_description_only [of 2 duplicate_store "''Pay the rent''"]
  by (simp add: duplicate_store_def edit_task_def save_tasks_def)

section \<open>Several tasks with one id\<close>

text \<open>
  C10. When the first task with the id is followed by other tasks, whatever their ids,
  \<open>complete_task\<close>, \<open>delete_task\<close> and \<open>edit_task\<close> change that first task only:
  the tasks before it and all the tasks after it, those with the same id included, are
  left as they were.
\<close>

theorem first_match_only:
  assumes "tasks st = pre @ t # post" and "i \<notin> task_id ` set pre" and "task_id t = i"
  shows "tasks (snd (complete_task st i)) = pre @ t\<lparr>completed := True\<rparr> # post \<and>
     tasks (snd (delete_task st i)) = pre @ post \<and>
     tasks (snd (edit_task st i d)) = pre @ t\<lparr>description := d\<rparr> # post"
proof -
  have a: "tasks (snd (complete_task st i)) = pre @ t\<lparr>completed := True\<rparr> # post"
    using complete_task_first [OF assms] assms(1) by (cases "completed t") simp_all
  have b: "tasks (snd (delete_task st i)) = pre @ post"
    using delete_task_first [OF assms] by simp
  have c: "tasks (snd (edit_task st i d)) = pre @ t\<lparr>description := d\<rparr> # post"
    using edit_task_first [OF assms, of d] by simp
  show ?thesis by (rule conjI [OF a conjI [OF b c]])
qed

theorem first_match_only_witness:
  "tasks duplicate_store =
     [] @ \<lparr>task_id = 2, description = ''Pay rent'', completed = False,
            created_at = ''2024-01-01 10:00:01''\<rparr> #
       [\<lparr>task_id = 2, description = ''Buy milk'', completed = False,
          created_at = ''2024-01-01 10:00:02''\<rparr>]
   \<and> tasks (snd (complete_task duplicate_store 2)) =
       [\<lparr>task_id = 2, description = ''Pay rent'', completed = True,
          created_at = ''2024-01-01 10:00:01''\<rparr>,
        \<lparr>task_id = 2, description = ''Buy milk'', completed = False,
          created_at = ''2024-01-01 10:00:02''\<rparr>]
   \<and> tasks (snd (delete_task duplicate_store 2)) =
       [\<lparr>task_id = 2, description = ''Buy milk'', completed = False,
          created_at = ''2024-01-01 10:00:02''\<rparr>]
   \<and> tasks (snd (edit_task duplicate_store 2 ''Pay the rent'')) =
       [\<lparr>task_id = 2, description = ''Pay the rent'', completed = False,
          created_at = ''2024-01-01 10:00:01''\<rparr>,
        \<lparr>task_id = 2, description = ''Buy milk'', completed = False,
          created_at = ''2024-01-01 10:00:02''\<rparr>]"
proof -
  let ?t1 = "\<lparr>task_id = 2, description = ''Pay rent'', completed = False,
            created_at = ''2024-01-01 10:00:01''\<rparr>"
  let ?t2 = "\<lparr>task_id = 2, description = ''Buy milk'', completed = False,
          created_at = ''2024-01-01 10:00:02''\<rparr>"
  have h1: "tasks duplicate_store = [] @ ?t1 # [?t2]" by (simp add: duplicate_store_def)
  have h2: "(2::int) \<notin> task_id ` set []" by simp
  have h3: "task_id ?t1 = 2" by simp
  from first_match_only [OF h1 h2 h3, of "''Pay the rent''"] h1 show ?thesis by simp
qed

section \<open>Clearing the completed tasks\<close>

lemma scenario_store_tasks:
  "tasks scenario_store =
     [\<lparr>task_id = 1, description = ''Buy milk'', completed = True,
       created_at = ''2024-01-01 10:00:00''\<rparr>,
      \<lparr>task_id = 2, description = ''Pay rent'', completed = False,
       created_at = ''2024-01-01 10:00:01''\<rparr>]"
  by (simp add: scenario_store_def run_def fresh_def add_task_def save_tasks_def new_task_def
      complete_task_def)

text \<open>
  C5. \<open>clear_completed\<close> keeps exactly the tasks that are not completed, in their
  order and unchanged. When some task was completed it reports how many were removed and
  saves the list left; when none was, it reports that, and the store is unchanged, with
  nothing written.
\<close>

theorem clear_completed_filters:
  "clear_completed st =
     (if \<exists>t \<in> set (tasks st). completed t
      then (RemovedCompleted (length (filter completed (tasks st))),
            st\<lparr>tasks := filter (\<lambda>t. \<not> completed t) (tasks st),
               writes := filter (\<lambda>t. \<not> completed t) (tasks st) # writes st\<rparr>)
      else (NoCompletedToRemove, st))"
proof -
  have len: "length (tasks st) =
      length (filter completed (tasks st)) + length (filter (\<lambda>t. \<not> completed t) (tasks st))"
    by (rule sum_length_filter_compl [symmetric])
  show ?thesis
  proof (cases "\<exists>t \<in> set (tasks st). completed t")
    case True
    then have "filter completed (tasks st) \<noteq> []"
      by (simp add: filter_empty_conv)
    then have "0 < length (filter completed (tasks st))" by simp
    then show ?thesis using True len
      by (simp add: clear_completed_def Let_def save_tasks_def)
  next
    case False
    then have "filter (\<lambda>t. \<not> completed t) (tasks st) = tasks st" by simp
    then show ?thesis using False by (simp add: clear_completed_def Let_def)
  qed
qed

theorem clear_completed_filters_witness:
  "(\<exists>t \<in> set (tasks scenario_store). completed t) \<and>
   fst (clear_completed scenario_store) = RemovedCompleted 1 \<and>
   tasks (snd (clear_completed scenario_store)) =
     [\<lparr>task_id = 2, description = ''Pay rent'', completed = False,
       created_at = ''2024-01-01 10:00:01''\<rparr>] \<and>
   writes (snd (clear_completed scenario_store)) =
     [\<lparr>task_id = 2, description = ''Pay rent'', completed = False,
       created_at = ''2024-01-01 10:00:01''\<rparr>] # writes scenario_store \<and>
   clear_completed (snd (clear_completed scenario_store)) =
     (NoCompletedToRemove, snd (clear_completed scenario_store))"
  using clear_completed_filters [of scenario_store]
    clear_completed_filters [of "snd (clear_completed scenario_store)"]
  by (simp add: scenario_store_tasks)

section \<open>Deleting twice\<close>

text \<open>
  C4. A second \<open>delete_task\<close> with the same id does not always report not-found. In
  the store left by adding two tasks, deleting task 1 and adding a third, both tasks have
  id 2: the first call deletes one of them and the second call deletes the other.
\<close>

theorem second_delete_finds_duplicate:
  "fst (delete_task duplicate_store 2) = Deleted 2 ''Pay rent'' \<and>
   fst (delete_task (snd (delete_task duplicate_store 2)) 2) = Deleted 2 ''Buy milk'' \<and>
   fst (delete_task (snd (delete_task duplicate_store 2)) 2) \<noteq> NotFound 2 \<and>
   tasks (run fresh [Add ''Walk dog'' ''2024-01-01 10:00:00'',
                     Add ''Pay rent'' ''2024-01-01 10:00:01'', Delete 1,
                     Add ''Buy milk'' ''2024-01-01 10:00:02'']) = tasks duplicate_store"
  by (simp add: duplicate_store_def delete_task_def save_tasks_def run_def fresh_def
      add_task_def new_task_def)

section \<open>Searching\<close>

subsection \<open>Substrings\<close>

lemma startswith_iff: "startswith s p \<longleftrightarrow> (\<exists>r. s = p @ r)"
  by (induction s p rule: startswith.induct) auto

lemma contains_iff: "contains s sub \<longleftrightarrow> (\<exists>b a. s = b @ sub @ a)"
proof (induction s)
  case Nil
  show ?case by auto
next
  case (Cons c cs)
  show ?case
  proof
    assume "contains (c # cs) sub"
    then consider "startswith (c # cs) sub" | "contains cs sub" by auto
    then show "\<exists>b a. c # cs = b @ sub @ a"
    proof cases
      case 1
      then obtain r where "c # cs = sub @ r" by (auto simp: startswith_iff)
      then have "c # cs = [] @ sub @ r" by simp
      then show ?thesis by blast
    next
      case 2
      then obtain b a where "cs = b @ sub @ a" using Cons.IH by blast
      then have "c # cs = (c # b) @ sub @ a" by simp
      then show ?thesis by blast
    qed
  next
    assume "\<exists>b a. c # cs = b @ sub @ a"
    then obtain b a where e: "c # cs = b @ sub @ a" by blast
    show "contains (c # cs) sub"
    proof (cases b)
      case Nil
      then have "startswith (c # cs) sub" using e by (auto simp: startswith_iff)
      then show ?thesis by simp
    next
      case (Cons x b')
      then have "cs = b' @ sub @ a" using e by simp
      then have "contains cs sub" using Cons.IH by blast
      then show ?thesis by simp
    qed
  qed
qed



subsection \<open>Lowercase of ASCII text\<close>







subsection \<open>The result of a search\<close>

lemma contains_ci_substring: "contains descr keyword \<Longrightarrow> ci_substring keyword descr"
proof -
  assume "contains descr keyword"
  then obtain b a where "descr = b @ keyword @ a" unfolding contains_iff by blast
  moreover have "\<forall>k < length keyword. same_letter (keyword ! k) (keyword ! k)"
    by (simp add: same_letter_def)
  ultimately show ?thesis unfolding ci_substring_def by blast
qed

lemma lower_latin1_example:
  "lower [0x43, 0x41, 0x46, 0xC9] = [0x63, 0x61, 0x66, 0xE9] \<and>
   contains (lower [0x43, 0x41, 0x46, 0xC9]) (lower [0x63, 0x61, 0x66, 0xE9])"
  by (simp add: lower_def lower_char_def)






section \<open>Statistics\<close>

subsection \<open>Rounding to binary64\<close>

declare bit_length.simps [simp del]

lemma round_half_even_error: "\<bar>of_int (round_half_even x) - x\<bar> \<le> 1 / 2"
proof -
  have "of_int \<lfloor>x\<rfloor> \<le> x" and "x < of_int \<lfloor>x\<rfloor> + 1" by linarith+
  then show ?thesis
    by (auto simp: round_half_even_def Let_def)
qed

lemma bit_length_0: "bit_length 0 = 0"
  by (simp add: bit_length.simps [of 0])

lemma bit_length_pos: "0 < n \<Longrightarrow> bit_length n = Suc (bit_length (n div 2))"
  by (simp add: bit_length.simps [of n])

lemma bit_length_bounds:
  "0 < n \<Longrightarrow> 2 ^ (bit_length n - 1) \<le> n \<and> n < 2 ^ bit_length n"
proof (induction n rule: bit_length.induct)
  case (1 n)
  show ?case
  proof (cases "n div 2 = 0")
    case True
    with 1(2) have n1: "n = 1" by arith
    have "bit_length n = Suc 0"
      using bit_length_pos [OF 1(2)] True by (simp add: bit_length_0)
    then show ?thesis using n1 by simp
  next
    case False
    then have pos: "0 < n div 2" by simp
    from 1(1) [OF _ pos] 1(2)
    have ih: "2 ^ (bit_length (n div 2) - 1) \<le> n div 2" "n div 2 < 2 ^ bit_length (n div 2)"
      by simp_all
    have bl: "bit_length n = Suc (bit_length (n div 2))"
      using 1(2) by (rule bit_length_pos)
    have blpos: "0 < bit_length (n div 2)"
      using bit_length_pos [OF pos] by simp
    have a: "2 ^ bit_length (n div 2) \<le> n"
    proof -
      have "(2::nat) ^ bit_length (n div 2) = 2 * 2 ^ (bit_length (n div 2) - 1)"
        using blpos by (cases "bit_length (n div 2)") simp_all
      also have "\<dots> \<le> 2 * (n div 2)" using ih(1) by simp
      also have "\<dots> \<le> n" by simp
      finally show ?thesis .
    qed
    have b: "n < 2 * 2 ^ bit_length (n div 2)"
      using ih(2) by arith
    show ?thesis using a b by (simp add: bl)
  qed
qed

lemma exponent_bounds:
  assumes "0 < x"
  shows "2 powi exponent x \<le> x \<and> x < 2 powi (exponent x + 1)"
proof -
  obtain a b where q: "quotient_of x = (a, b)" by (cases "quotient_of x")
  have bpos: "0 < b" using q by (rule quotient_of_denom_pos)
  have xab: "x = of_int a / of_int b" using q by (rule quotient_of_div)
  have apos: "0 < a"
    using assms bpos unfolding xab by (simp add: zero_less_divide_iff)
  define la where "la = bit_length (nat a)"
  define lb where "lb = bit_length (nat b)"
  define d where "d = int la - int lb"
  have A: "2 ^ (la - 1) \<le> nat a" "nat a < 2 ^ la"
    using bit_length_bounds [of "nat a"] apos by (simp_all add: la_def)
  have B: "2 ^ (lb - 1) \<le> nat b" "nat b < 2 ^ lb"
    using bit_length_bounds [of "nat b"] bpos by (simp_all add: lb_def)
  have lapos: "0 < la" using bit_length_pos [of "nat a"] apos by (simp add: la_def)
  have lbpos: "0 < lb" using bit_length_pos [of "nat b"] bpos by (simp add: lb_def)
  have ra: "(2::rat) ^ (la - 1) \<le> of_int a" "of_int a < (2::rat) ^ la"
  proof -
    have "rat_of_nat (2 ^ (la - 1)) \<le> rat_of_nat (nat a)" using A(1) by (simp only: of_nat_le_iff)
    then show "(2::rat) ^ (la - 1) \<le> of_int a" using apos by simp
    have "rat_of_nat (nat a) < rat_of_nat (2 ^ la)" using A(2) by (simp only: of_nat_less_iff)
    then show "of_int a < (2::rat) ^ la" using apos by simp
  qed
  have rb: "(2::rat) ^ (lb - 1) \<le> of_int b" "of_int b < (2::rat) ^ lb"
  proof -
    have "rat_of_nat (2 ^ (lb - 1)) \<le> rat_of_nat (nat b)" using B(1) by (simp only: of_nat_le_iff)
    then show "(2::rat) ^ (lb - 1) \<le> of_int b" using bpos by simp
    have "rat_of_nat (nat b) < rat_of_nat (2 ^ lb)" using B(2) by (simp only: of_nat_less_iff)
    then show "of_int b < (2::rat) ^ lb" using bpos by simp
  qed
  have rbpos: "(0::rat) < of_int b" using bpos by simp
  have up: "x < 2 powi (d + 1)"
  proof -
    have "x < 2 ^ la / of_int b"
      unfolding xab using ra(2) rbpos by (simp add: divide_strict_right_mono)
    also have "\<dots> \<le> 2 ^ la / 2 ^ (lb - 1)"
      using rb(1) by (simp add: frac_le)
    also have "\<dots> = 2 powi (int la - int (lb - 1))"
      by (simp add: power_int_diff)
    also have "int la - int (lb - 1) = d + 1"
      using lbpos by (simp add: d_def)
    finally show ?thesis .
  qed
  have lo: "2 powi (d - 1) \<le> x"
  proof -
    have "d - 1 = int (la - 1) - int lb"
      using lapos by (simp add: d_def of_nat_diff)
    then have "2 powi (d - 1) = (2::rat) powi (int (la - 1) - int lb)"
      by (rule arg_cong)
    also have "\<dots> = 2 ^ (la - 1) / 2 ^ lb"
      by (simp add: power_int_diff)
    also have "\<dots> \<le> of_int a / 2 ^ lb"
      using ra(1) by (simp add: divide_right_mono)
    also have "\<dots> \<le> of_int a / of_int b"
      using rb(2) rbpos apos by (simp add: frac_le)
    finally show ?thesis by (simp add: xab)
  qed
  have ex: "exponent x = (if 2 powi d \<le> x then d else d - 1)"
    by (simp add: exponent_def q Let_def d_def la_def lb_def)
  show ?thesis
  proof (cases "2 powi d \<le> x")
    case True
    then show ?thesis using up by (simp add: ex)
  next
    case False
    then have "x < 2 powi d" by simp
    then show ?thesis using lo False by (simp add: ex)
  qed
qed

lemma fl_error:
  assumes "0 < x"
  shows "\<bar>fl x - x\<bar> \<le> x / 2 ^ 53"
proof -
  define u :: rat where "u = 2 powi (exponent x - 52)"
  have upos: "0 < u" by (simp add: u_def)
  have u52: "u * 2 ^ 52 = 2 powi exponent x"
    by (simp add: u_def power_int_diff)
  have flx: "fl x = of_int (round_half_even (x / u)) * u"
    using assms by (simp add: fl_def Let_def u_def)
  have "\<bar>fl x - x\<bar> = \<bar>of_int (round_half_even (x / u)) - x / u\<bar> * u"
  proof -
    have "fl x - x = (of_int (round_half_even (x / u)) - x / u) * u"
      using upos by (simp add: flx algebra_simps)
    then show ?thesis using upos by (simp add: abs_mult)
  qed
  also have "\<dots> \<le> (1 / 2) * u"
    using round_half_even_error [of "x / u"] upos by (simp add: mult_right_mono)
  also have "\<dots> = (u * 2 ^ 52) / 2 ^ 53" by simp
  also have "\<dots> \<le> x / 2 ^ 53"
  proof (rule divide_right_mono)
    show "u * 2 ^ 52 \<le> x"
      unfolding u52 using exponent_bounds [OF assms] by (rule conjunct1)
    show "(0::rat) \<le> 2 ^ 53" by simp
  qed
  finally show ?thesis .
qed

lemma fl_0: "fl 0 = 0"
  by (simp add: fl_def)

lemma round_half_even_0: "round_half_even 0 = 0"
  by (simp add: round_half_even_def)

lemma completion_rate_nearest_tenth:
  assumes t: "0 < t" and c0: "0 \<le> c" and ct: "c \<le> t" and cb: "c < 2 ^ 40"
  shows "\<bar>rat_of_int (format_1f (completion_rate c t)) / 10 - 100 * rat_of_int c / rat_of_int t\<bar>
           \<le> 1 / 20"
proof (cases "c = 0")
  case True
  then show ?thesis using t
    by (simp add: completion_rate_def format_1f_def fl_0 round_half_even_0)
next
  case False
  with c0 have cpos: "0 < c" by simp
  define q :: rat where "q = of_int c / of_int t"
  define x1 where "x1 = fl q"
  define x2 where "x2 = fl (x1 * 100)"
  define k where "k = round_half_even (x2 * 10)"
  have tpos: "(0::rat) < of_int t" using t by simp
  have qpos: "0 < q" using cpos t by (simp add: q_def)
  have e1: "\<bar>x1 - q\<bar> \<le> q / 2 ^ 53" unfolding x1_def using qpos by (rule fl_error)
  have x1pos: "0 < x1"
  proof -
    have "q / 2 ^ 53 < q" using qpos by simp
    with e1 show ?thesis by linarith
  qed
  have x1le: "x1 \<le> 2 * q"
  proof -
    have "q / 2 ^ 53 \<le> q" using qpos by simp
    with e1 show ?thesis by linarith
  qed
  have ypos: "0 < x1 * 100" using x1pos by simp
  have e2: "\<bar>x2 - x1 * 100\<bar> \<le> x1 * 100 / 2 ^ 53" unfolding x2_def using ypos by (rule fl_error)
  have e2': "\<bar>x2 - x1 * 100\<bar> \<le> 200 * q / 2 ^ 53"
  proof -
    have "x1 * 100 / 2 ^ 53 \<le> (2 * q) * 100 / 2 ^ 53"
      using x1le by (simp add: divide_right_mono)
    with e2 show ?thesis by simp
  qed
  have e3: "\<bar>x2 - 100 * q\<bar> \<le> 300 * q / 2 ^ 53"
  proof -
    have eq: "x2 - 100 * q = (x2 - x1 * 100) + 100 * (x1 - q)" by simp
    have "\<bar>x2 - 100 * q\<bar> \<le> \<bar>x2 - x1 * 100\<bar> + \<bar>100 * (x1 - q)\<bar>"
      unfolding eq by (rule abs_triangle_ineq)
    also have "\<dots> = \<bar>x2 - x1 * 100\<bar> + 100 * \<bar>x1 - q\<bar>"
      by (subst abs_mult) simp
    also have "\<dots> \<le> 200 * q / 2 ^ 53 + 100 * (q / 2 ^ 53)"
      using e2' e1 by (intro add_mono mult_left_mono) simp_all
    also have "\<dots> = 300 * q / 2 ^ 53" by simp
    finally show ?thesis .
  qed
  have ek: "\<bar>of_int k - x2 * 10\<bar> \<le> 1 / 2"
    unfolding k_def by (rule round_half_even_error)
  have e4: "\<bar>of_int k - 1000 * q\<bar> \<le> 1 / 2 + 3000 * q / 2 ^ 53"
  proof -
    have eq: "of_int k - 1000 * q = (of_int k - x2 * 10) + 10 * (x2 - 100 * q)" by simp
    have "\<bar>of_int k - 1000 * q\<bar> \<le> \<bar>of_int k - x2 * 10\<bar> + \<bar>10 * (x2 - 100 * q)\<bar>"
      unfolding eq by (rule abs_triangle_ineq)
    also have "\<dots> = \<bar>of_int k - x2 * 10\<bar> + 10 * \<bar>x2 - 100 * q\<bar>"
      by (subst abs_mult) simp
    also have "\<dots> \<le> 1 / 2 + 10 * (300 * q / 2 ^ 53)"
      using ek e3 by (intro add_mono mult_left_mono) simp_all
    finally show ?thesis by simp
  qed
  define D where "D = k * t - 1000 * c"
  have Dq: "of_int k - 1000 * q = of_int D / of_int t"
    using tpos by (simp add: D_def q_def field_simps)
  have e5: "\<bar>rat_of_int D\<bar> \<le> of_int t / 2 + 3000 * of_int c / 2 ^ 53"
  proof -
    have "\<bar>rat_of_int D\<bar> = \<bar>of_int k - 1000 * q\<bar> * of_int t"
      using tpos by (simp add: Dq abs_mult)
    also have "\<dots> \<le> (1 / 2 + 3000 * q / 2 ^ 53) * of_int t"
      using e4 tpos by (simp add: mult_right_mono)
    also have "\<dots> = of_int t / 2 + 3000 * of_int c / 2 ^ 53"
      using tpos by (simp add: q_def field_simps)
    finally show ?thesis .
  qed
  have small: "3000 * rat_of_int c / 2 ^ 53 < 1 / 2"
  proof -
    have "rat_of_int c < rat_of_int (2 ^ 40)" using cb by (simp only: of_int_less_iff)
    then have "rat_of_int c < 2 ^ 40" by simp
    then show ?thesis by simp
  qed
  have "2 * \<bar>rat_of_int D\<bar> < of_int t + 1" using e5 small by linarith
  then have "rat_of_int (2 * \<bar>D\<bar>) < rat_of_int (t + 1)" by simp
  then have "2 * \<bar>D\<bar> < t + 1" by (simp only: of_int_less_iff)
  then have D2: "2 * \<bar>D\<bar> \<le> t" by simp
  have "\<bar>of_int k / 10 - 100 * q\<bar> = \<bar>rat_of_int D\<bar> / of_int t / 10"
  proof -
    have "of_int k / 10 - 100 * q = (of_int k - 1000 * q) / 10" by simp
    then show ?thesis using tpos by (simp add: Dq)
  qed
  also have "\<dots> \<le> (of_int t / 2) / of_int t / 10"
  proof -
    have "rat_of_int (2 * \<bar>D\<bar>) \<le> rat_of_int t" using D2 by (simp only: of_int_le_iff)
    then have "\<bar>rat_of_int D\<bar> \<le> of_int t / 2" by simp
    then show ?thesis using tpos by (simp add: divide_right_mono)
  qed
  also have "\<dots> = 1 / 20" using tpos by simp
  finally have "\<bar>of_int k / 10 - 100 * q\<bar> \<le> 1 / 20" .
  moreover have "format_1f (completion_rate c t) = k"
    using t by (simp add: completion_rate_def format_1f_def k_def x2_def x1_def q_def)
  ultimately show ?thesis by (simp add: q_def)
qed

lemma completion_rate_no_tasks: "completion_rate c 0 = 0"
  by (simp add: completion_rate_def)

subsection \<open>The report\<close>

text \<open>
  Claim C9.  On a store without tasks \<^verbatim>\<open>show_statistics\<close> gives the report that there is
  nothing to display, and no figures.  On a store with at least one task (and fewer than
  \<open>2 ^ 40\<close> of them) it reports the number of tasks, the number of completed tasks, their
  difference as the number of pending tasks, and a rate with one decimal that is a nearest
  tenth of \<open>100 * completed / total\<close>: it is at most one twentieth away from the exact
  quotient.  In both cases the store is returned as it was, its log of writes included.
\<close>

theorem show_statistics_figures:
  "(tasks st = [] \<longrightarrow> show_statistics st = (NoTasksForStatistics, st)) \<and>
   (tasks st \<noteq> [] \<and> length (tasks st) < 2 ^ 40 \<longrightarrow>
      (\<exists>k. show_statistics st =
             (Statistics (int (length (tasks st)))
                (int (length (filter completed (tasks st))))
                (int (length (tasks st)) - int (length (filter completed (tasks st)))) k,
              st) \<and>
           \<bar>rat_of_int k / 10 -
              100 * rat_of_int (int (length (filter completed (tasks st)))) /
                rat_of_int (int (length (tasks st)))\<bar> \<le> 1 / 20)) \<and>
   snd (show_statistics st) = st"
proof -
  have a: "tasks st = [] \<longrightarrow> show_statistics st = (NoTasksForStatistics, st)"
    by (simp add: show_statistics_def)
  have c: "snd (show_statistics st) = st"
    by (simp add: show_statistics_def Let_def)
  have b: "tasks st \<noteq> [] \<and> length (tasks st) < 2 ^ 40 \<longrightarrow>
      (\<exists>k. show_statistics st =
             (Statistics (int (length (tasks st)))
                (int (length (filter completed (tasks st))))
                (int (length (tasks st)) - int (length (filter completed (tasks st)))) k,
              st) \<and>
           \<bar>rat_of_int k / 10 -
              100 * rat_of_int (int (length (filter completed (tasks st)))) /
                rat_of_int (int (length (tasks st)))\<bar> \<le> 1 / 20)"
  proof
    assume h: "tasks st \<noteq> [] \<and> length (tasks st) < 2 ^ 40"
    define t where "t = int (length (tasks st))"
    define c where "c = int (length (filter completed (tasks st)))"
    have tpos: "0 < t" using h by (simp add: t_def)
    have c0: "0 \<le> c" by (simp add: c_def)
    have ct: "c \<le> t" by (simp add: c_def t_def)
    have "t < 2 ^ 40"
    proof -
      have "int (length (tasks st)) < int (2 ^ 40)" using h by (simp only: of_nat_less_iff)
      then show ?thesis by (simp add: t_def)
    qed
    with ct have cb: "c < 2 ^ 40" by simp
    have e: "show_statistics st = (Statistics t c (t - c) (format_1f (completion_rate c t)), st)"
      using h by (simp add: show_statistics_def Let_def t_def c_def)
    have "show_statistics st = (Statistics t c (t - c) (format_1f (completion_rate c t)), st) \<and>
        \<bar>rat_of_int (format_1f (completion_rate c t)) / 10 - 100 * rat_of_int c / rat_of_int t\<bar>
          \<le> 1 / 20"
      using e completion_rate_nearest_tenth [OF tpos c0 ct cb] by (rule conjI)
    then show "\<exists>k. show_statistics st =
             (Statistics (int (length (tasks st)))
                (int (length (filter completed (tasks st))))
                (int (length (tasks st)) - int (length (filter completed (tasks st)))) k,
              st) \<and>
           \<bar>rat_of_int k / 10 -
              100 * rat_of_int (int (length (filter completed (tasks st)))) /
                rat_of_int (int (length (tasks st)))\<bar> \<le> 1 / 20"
      unfolding t_def c_def by (rule exI)
  qed
  show ?thesis by (rule conjI [OF a conjI [OF b c]])
qed

text \<open>
  On the empty store the report is not a statistics report with total 0 and rate 0: the
  branch \<^verbatim>\<open>else 0\<close> of the rate is never reached from \<^verbatim>\<open>show_statistics\<close>.
\<close>

theorem show_statistics_empty_counterexample:
  "fst (show_statistics fresh) = NoTasksForStatistics \<and>
   fst (show_statistics fresh) \<noteq> Statistics 0 0 0 0"
  by (simp add: show_statistics_def fresh_def)

text \<open>
  The store of the scenario has two tasks, one of them completed: the rate printed is
  \<^verbatim>\<open>50.0\<close>.
\<close>

theorem show_statistics_figures_witness:
  "tasks scenario_store \<noteq> [] \<and> length (tasks scenario_store) < 2 ^ 40 \<and>
   show_statistics scenario_store = (Statistics 2 1 1 500, scenario_store) \<and>
   tasks (fresh :: char store) = [] \<and>
   show_statistics (fresh :: char store) = (NoTasksForStatistics, fresh)"
proof -
  have ne: "tasks scenario_store \<noteq> [] \<and> length (tasks scenario_store) < 2 ^ 40"
    by (simp add: scenario_store_tasks)
  from show_statistics_figures [of scenario_store] ne
  obtain k where k: "show_statistics scenario_store = (Statistics 2 1 1 k, scenario_store)"
      "\<bar>rat_of_int k / 10 - 100 * 1 / 2\<bar> \<le> 1 / 20"
    by (auto simp: scenario_store_tasks)
  have lo: "499 < rat_of_int k" using k(2) by linarith
  have hi: "rat_of_int k < 501" using k(2) by linarith
  from lo hi have "499 < k" "k < 501" by simp_all
  then have "k = 500" by simp
  moreover have "tasks (fresh :: char store) = []" by (simp add: fresh_def)
  moreover have "show_statistics (fresh :: char store) = (NoTasksForStatistics, fresh)"
    using show_statistics_figures [of "fresh :: char store"] by (simp add: fresh_def)
  ultimately show ?thesis using ne k(1) by simp
qed

end
